theory Spec2Isabelle
  imports Main "HOL-Library.Word"
begin

section \<open>Player::Impl of shaka/src/public/player.cc\<close>

subsection \<open>Data model\<close>

text \<open>
  A \<^verbatim>\<open>NetworkFilters*\<close> is an address or \<^verbatim>\<open>nullptr\<close>: \<open>None\<close> is \<^verbatim>\<open>nullptr\<close>,
  \<open>Some a\<close> the object at address \<open>a\<close>. A \<^verbatim>\<open>RefPtr<js::mse::HTMLVideoElement>\<close> is
  modelled the same way, over the identities of the elements created so far.
\<close>

type_synonym filters_ptr = "nat option"
type_synonym video_ptr = "nat option"

text \<open>
  The members of \<^verbatim>\<open>Player::Impl\<close>: \<^verbatim>\<open>object_\<close> (inherited from JsObjectWrapper, set by
  \<^verbatim>\<open>Init\<close>), \<^verbatim>\<open>video_\<close> and \<^verbatim>\<open>filters_\<close>, here \<open>impl_object\<close>, \<open>impl_video\<close> and
  \<open>impl_filters\<close> (a name may not end in an underscore). The
  \<^verbatim>\<open>std::list<NetworkFilters*>\<close> is a HOL list; no member function erases from it, so a
  list iterator is the index of its element, \<^verbatim>\<open>filters_.begin()\<close> is 0,
  \<^verbatim>\<open>filters_.end()\<close> is the length, and \<^verbatim>\<open>std::next(it)\<close> is the successor, also when
  elements were appended since \<^verbatim>\<open>it\<close> was taken.
\<close>

record player_impl =
  impl_object :: "nat option"
  impl_video :: video_ptr
  impl_filters :: "filters_ptr list"

subsection \<open>The filter registry\<close>

text \<open>\<^verbatim>\<open>AddNetworkFilters\<close>: \<^verbatim>\<open>filters_.emplace_back(filters)\<close> under the lock.\<close>

definition AddNetworkFilters :: "filters_ptr \<Rightarrow> player_impl \<Rightarrow> player_impl" where
  "AddNetworkFilters filters s = s\<lparr>impl_filters := impl_filters s @ [filters]\<rparr>"

text \<open>
  \<^verbatim>\<open>RemoveNetworkFilters\<close>: the range-for over \<^verbatim>\<open>filters_\<close> by reference, which writes
  \<^verbatim>\<open>nullptr\<close> into every element equal to the argument.
\<close>

fun remove_loop :: "filters_ptr \<Rightarrow> filters_ptr list \<Rightarrow> filters_ptr list" where
  "remove_loop filters [] = []"
| "remove_loop filters (elem # rest) =
     (if elem = filters then None else elem) # remove_loop filters rest"

definition RemoveNetworkFilters :: "filters_ptr \<Rightarrow> player_impl \<Rightarrow> player_impl" where
  "RemoveNetworkFilters filters s = s\<lparr>impl_filters := remove_loop filters (impl_filters s)\<rparr>"

subsection \<open>Errors and promises\<close>

text \<open>
  A \<^verbatim>\<open>shaka::Error\<close> is built in this file either from a message (\<^verbatim>\<open>Error("...")\<close>) or
  by \<^verbatim>\<open>ConvertError\<close> from a JavaScript value (an exception or an event's detail), kept
  here as that value's handle. A \<^verbatim>\<open>Converter<T>::variant_type\<close> holds a value or an Error:
  the sum with \<open>Inl\<close> for the Error; \<^verbatim>\<open>holds_alternative<Error>\<close> is \<open>isl\<close>.
\<close>

datatype error = Error string | ConvertError nat

type_synonym 'a variant_type = "error + 'a"

subsection \<open>One step of the filter chain\<close>

text \<open>
  What a step does, in the order it does it: taking and releasing \<^verbatim>\<open>filters_mutex_\<close>
  (the \<^verbatim>\<open>std::unique_lock\<close> of the inner block, released where the block is left), the
  call of the filter's member \<^verbatim>\<open>on_filter\<close> at a position of the list, the call of
  \<^verbatim>\<open>HandleNetworkFuture\<close>, \<^verbatim>\<open>obj->Finalize()\<close>, and the settling of the Promise.
\<close>

datatype event =
    Lock
  | Unlock
  | OnFilter nat nat
  | HandleFuture
  | Finalize
  | ResolveWith
  | RejectWith error

text \<open>
  The loop \<^verbatim>\<open>for (; it != filters_.end(); it++)\<close>: a null entry is skipped
  (\<^verbatim>\<open>continue\<close>), the first non-null entry ends the loop with its position and address.
  An iterator never lies behind the end, so \<^verbatim>\<open>it != filters_.end()\<close> is \<open>it < length fs\<close>.
\<close>

function scan_loop :: "filters_ptr list \<Rightarrow> nat \<Rightarrow> (nat \<times> nat) option" where
  "scan_loop fs it =
     (if it < length fs then
        (case fs ! it of
           None \<Rightarrow> scan_loop fs (Suc it)
         | Some p \<Rightarrow> Some (it, p))
      else None)"
  by pat_completeness auto
termination
  by (relation "measure (\<lambda>(fs, it). length fs - it)") auto

declare scan_loop.simps [simp del]

text \<open>
  The result of a step: either the step has called a filter and handed its future and
  the continuation to \<^verbatim>\<open>HandleNetworkFuture\<close> (the continuation captures \<^verbatim>\<open>it\<close> and will
  call \<^verbatim>\<open>StepNetworkFilter\<close> with \<^verbatim>\<open>std::next(it)\<close>), or it has reached the end.
\<close>

datatype step = Handed nat | AtEnd

definition StepNetworkFilter :: "player_impl \<Rightarrow> nat \<Rightarrow> event list \<times> step" where
  "StepNetworkFilter s it =
     (case scan_loop (impl_filters s) it of
        Some (i, p) \<Rightarrow> ([Lock, OnFilter i p, HandleFuture, Unlock], Handed i)
      | None \<Rightarrow> ([Lock, Unlock, Finalize, ResolveWith], AtEnd))"

subsection \<open>A run of the chain\<close>

datatype handled = Rejects error | CallsOnDone

text \<open>
  Modelled from the spec: \<^verbatim>\<open>HandleNetworkFuture\<close> is declared outside player.cc. The spec
  (4.5, 6): on the step's completion the continuation is scheduled at the next position;
  a filter returning a present Error aborts the chain with that error, which becomes the
  chain's terminal result without visiting the remaining filters.
\<close>

definition HandleNetworkFuture :: "error option \<Rightarrow> handled" where
  "HandleNetworkFuture outcome =
     (case outcome of Some e \<Rightarrow> Rejects e | None \<Rightarrow> CallsOnDone)"

text \<open>
  Modelled from the spec: what ends a run whose filter has failed lies outside player.cc
  (in \<^verbatim>\<open>HandleNetworkFuture\<close> and in the payload, which the continuation holds by shared
  ownership). The spec (3, 7): the payload is finalized exactly once after the chain
  completes, regardless of success or failure; the finalize is part of the terminal path
  for both; (4.5) the failure is the chain's terminal result. As on the path of success,
  the payload is finalized and then the Promise is settled.
\<close>

definition failure_path :: "error \<Rightarrow> event list" where
  "failure_path e = [Finalize, RejectWith e]"

text \<open>
  While a filter's future is outstanding the lock is free, and other threads may call
  \<^verbatim>\<open>AddNetworkFilters\<close> and \<^verbatim>\<open>RemoveNetworkFilters\<close>.
\<close>

datatype registry_op = Add filters_ptr | Remove filters_ptr

fun apply_op :: "registry_op \<Rightarrow> player_impl \<Rightarrow> player_impl" where
  "apply_op (Add f) s = AddNetworkFilters f s"
| "apply_op (Remove f) s = RemoveNetworkFilters f s"

fun apply_ops :: "registry_op list \<Rightarrow> player_impl \<Rightarrow> player_impl" where
  "apply_ops [] s = s"
| "apply_ops (x # xs) s = apply_ops xs (apply_op x s)"

text \<open>
  A run is driven by what the environment does at each filter call: the registry
  operations that happen while the filter's future is outstanding, and the value the
  future completes with. When the schedule is used up the last filter's future never
  completes and the run stays where it is.
\<close>

type_synonym schedule = "(registry_op list \<times> error option) list"

fun run_chain :: "schedule \<Rightarrow> player_impl \<Rightarrow> nat \<Rightarrow> event list" where
  "run_chain [] s it = fst (StepNetworkFilter s it)"
| "run_chain ((ops, outcome) # sched) s it =
     (case StepNetworkFilter s it of
        (evs, AtEnd) \<Rightarrow> evs
      | (evs, Handed i) \<Rightarrow>
          evs @ (case HandleNetworkFuture outcome of
                   Rejects e \<Rightarrow> failure_path e
                 | CallsOnDone \<Rightarrow> run_chain sched (apply_ops ops s) (Suc i)))"

text \<open>
  The request and response filters registered by \<^verbatim>\<open>AttachListeners\<close> start a run at
  \<^verbatim>\<open>filters_.begin()\<close>. The two lambdas differ only in the payload and in the member
  called (\<^verbatim>\<open>OnRequestFilter\<close>, \<^verbatim>\<open>OnResponseFilter\<close>), so one definition stands for both.
\<close>

definition req_filter :: "schedule \<Rightarrow> player_impl \<Rightarrow> event list" where
  "req_filter sched s = run_chain sched s 0"

text \<open>Readings of a run: the filters called, the Finalize calls, the Promise.\<close>

fun visits :: "event list \<Rightarrow> (nat \<times> nat) list" where
  "visits [] = []"
| "visits (OnFilter i p # es) = (i, p) # visits es"
| "visits (e # es) = visits es"

datatype promise = Pending | Resolved | Rejected error

fun settle :: "promise \<Rightarrow> event list \<Rightarrow> promise" where
  "settle pr [] = pr"
| "settle Pending (ResolveWith # es) = settle Resolved es"
| "settle Pending (RejectWith e # es) = settle (Rejected e) es"
| "settle pr (e # es) = settle pr es"

text \<open>Each event of a trace other than the lock's own, with whether the lock is held.\<close>

fun under_lock :: "bool \<Rightarrow> event list \<Rightarrow> (event \<times> bool) list" where
  "under_lock h [] = []"
| "under_lock h (Lock # es) = under_lock True es"
| "under_lock h (Unlock # es) = under_lock False es"
| "under_lock h (e # es) = (e, h) # under_lock h es"

fun lock_after :: "bool \<Rightarrow> event list \<Rightarrow> bool" where
  "lock_after h [] = h"
| "lock_after h (Lock # es) = lock_after True es"
| "lock_after h (Unlock # es) = lock_after False es"
| "lock_after h (e # es) = lock_after h es"

text \<open>The calls that begin a filter's asynchronous step.\<close>

fun starts_step :: "event \<Rightarrow> bool" where
  "starts_step (OnFilter i p) = True"
| "starts_step HandleFuture = True"
| "starts_step e = False"

text \<open>The live entries of a registry from a position on, with their positions.\<close>

definition live_from :: "nat \<Rightarrow> filters_ptr list \<Rightarrow> (nat \<times> nat) list" where
  "live_from it fs =
     concat (map (\<lambda>i. case fs ! i of None \<Rightarrow> [] | Some p \<Rightarrow> [(i, p)]) [it..<length fs])"

subsection \<open>The JavaScript side\<close>

text \<open>
  Values handed to the engine. A C++ \<^verbatim>\<open>double\<close> is its IEEE 754 binary64 bit pattern;
  \<^verbatim>\<open>isnan\<close> holds of the patterns whose eleven exponent bits are all set and whose
  fraction is not zero. \<^verbatim>\<open>::shaka::ToJsValue(double)\<close> gives the JavaScript number of the
  same value, and a string argument gives a JavaScript string.
\<close>

type_synonym double = "64 word"

datatype js_value = JsUndefined | JsNumber double | JsString string | JsObject nat

definition isnan :: "double \<Rightarrow> bool" where
  "isnan v \<longleftrightarrow> take_bit 11 (drop_bit 52 v) = 0x7FF \<and> take_bit 52 v \<noteq> 0"

text \<open>\<^verbatim>\<open>LoadHelper::ToJsValue\<close>, with \<^verbatim>\<open>value_\<close> the number given to the constructor.\<close>

definition LoadHelper_ToJsValue :: "double \<Rightarrow> js_value" where
  "LoadHelper_ToJsValue value = (if \<not> isnan value then JsNumber value else JsUndefined)"

text \<open>
  What the wrapper asks of the engine, in order. The functions that do the asking
  (\<^verbatim>\<open>GetDescendant\<close>, \<^verbatim>\<open>InvokeConstructor\<close>, \<^verbatim>\<open>AttachEventListener\<close>, \<^verbatim>\<open>CallMethod\<close>) are
  declared outside player.cc; a call is recorded here and its outcome is the engine's.
\<close>

datatype js_call =
    JsGetDescendant "string list"
  | JsInvokeConstructor "js_value list"
  | JsAttachEventListener string
  | JsCallMethod string "js_value list"

text \<open>
  The shared state of a future made by \<^verbatim>\<open>std::async(std::launch::deferred, then)\<close>: the
  lambda, that is its captures \<^verbatim>\<open>future\<close> and \<^verbatim>\<open>video\<close>, and the stored result, \<open>None\<close>
  as long as the lambda has not run.
\<close>

datatype deferred = Deferred nat video_ptr "unit variant_type option"

text \<open>
  The wrapper with its surroundings: the \<^verbatim>\<open>HTMLVideoElement\<close>s created so far (an element
  is named by its index, and the entry is the \<^verbatim>\<open>MediaPlayer*\<close> it was created with), the
  calls made to the engine, the futures that \<^verbatim>\<open>CallMethod<void>\<close> has returned (\<open>None\<close>
  while the call is not resolved), the elements on which \<^verbatim>\<open>Detach()\<close> was called, and
  the deferred futures that \<^verbatim>\<open>SetVideoWhenResolved\<close> has returned (a future is named by
  its index).
\<close>

record world =
  impl :: player_impl
  elements :: "nat option list"
  js_calls :: "js_call list"
  js_futures :: "unit variant_type option list"
  detached :: "nat list"
  deferreds :: "deferred list"

text \<open>
  Modelled from the spec: \<^verbatim>\<open>CallMethod\<close> belongs to JsObjectWrapper, declared outside
  player.cc. The spec (4.2): invoking a named method with arguments is one submission to
  the engine thread and returns an asynchronous result, which is pending until the engine
  thread resolves it with a value or an Error.
\<close>

definition CallMethod :: "string \<Rightarrow> js_value list \<Rightarrow> world \<Rightarrow> nat \<times> world" where
  "CallMethod name args w =
     (length (js_futures w),
      w\<lparr>js_calls := js_calls w @ [JsCallMethod name args],
        js_futures := js_futures w @ [None]\<rparr>)"

text \<open>The engine thread resolves a pending future; a future is resolved once.\<close>

definition resolve :: "nat \<Rightarrow> unit variant_type \<Rightarrow> world \<Rightarrow> world" where
  "resolve future results w =
     (if future < length (js_futures w) \<and> js_futures w ! future = None
      then w\<lparr>js_futures := (js_futures w)[future := Some results]\<rparr>
      else w)"

text \<open>\<^verbatim>\<open>future.get()\<close> blocks until the future is resolved: \<open>None\<close> while it is pending.\<close>

definition future_get :: "nat \<Rightarrow> world \<Rightarrow> unit variant_type option" where
  "future_get future w =
     (if future < length (js_futures w) then js_futures w ! future else None)"

subsection \<open>Attach and Detach\<close>

text \<open>\<^verbatim>\<open>if (video_) video_->Detach();\<close>\<close>

definition detach_held :: "world \<Rightarrow> world" where
  "detach_held w =
     (case impl_video (impl w) of
        None \<Rightarrow> w
      | Some v \<Rightarrow> w\<lparr>detached := detached w @ [v]\<rparr>)"

text \<open>
  The lambda \<^verbatim>\<open>then\<close> of \<^verbatim>\<open>SetVideoWhenResolved\<close>, with its captures \<^verbatim>\<open>future\<close> and
  \<^verbatim>\<open>video\<close>: it returns the results, and where they hold no Error it detaches the held
  element and assigns \<^verbatim>\<open>video_ = video\<close>.
\<close>

definition then_lambda ::
  "nat \<Rightarrow> video_ptr \<Rightarrow> world \<Rightarrow> (unit variant_type \<times> world) option" where
  "then_lambda future video w =
     (case future_get future w of
        None \<Rightarrow> None
      | Some results \<Rightarrow>
          if \<not> isl results then
            (let w1 = detach_held w
             in Some (results, w1\<lparr>impl := (impl w1)\<lparr>impl_video := video\<rparr>\<rparr>))
          else Some (results, w))"

text \<open>
  \<^verbatim>\<open>std::async(std::launch::deferred, std::move(then))\<close> runs nothing: it makes a future
  that holds the lambda.
\<close>

definition SetVideoWhenResolved :: "nat \<Rightarrow> video_ptr \<Rightarrow> world \<Rightarrow> nat \<times> world" where
  "SetVideoWhenResolved future video w =
     (length (deferreds w), w\<lparr>deferreds := deferreds w @ [Deferred future video None]\<rparr>)"

text \<open>
  \<^verbatim>\<open>get()\<close> on the returned future (\<^verbatim>\<open>Converter<void>::future_type\<close> is a shared future:
  the lambda calls \<^verbatim>\<open>get()\<close> on its by-value, hence const, capture). The first get calls
  the lambda, which blocks while the remote call is pending, and stores what it returns;
  every later get returns the stored result and runs nothing. A future that was never
  made has no state to wait on.
\<close>

definition deferred_get :: "nat \<Rightarrow> world \<Rightarrow> (unit variant_type \<times> world) option" where
  "deferred_get d w =
     (if d < length (deferreds w) then
        (case deferreds w ! d of
           Deferred future video (Some stored) \<Rightarrow> Some (stored, w)
         | Deferred future video None \<Rightarrow>
             (case then_lambda future video w of
                None \<Rightarrow> None
              | Some (results, w1) \<Rightarrow>
                  Some (results,
                    w1\<lparr>deferreds := (deferreds w1)[d := Deferred future video (Some results)]\<rparr>)))
      else None)"

definition Attach :: "nat option \<Rightarrow> world \<Rightarrow> nat \<times> world" where
  "Attach player w =
     (let new_elem = length (elements w);
          w1 = w\<lparr>elements := elements w @ [player]\<rparr>;
          (future, w2) = CallMethod ''attach'' [JsObject new_elem] w1
      in SetVideoWhenResolved future (Some new_elem) w2)"

definition Detach :: "world \<Rightarrow> nat \<times> world" where
  "Detach w =
     (let (future, w1) = CallMethod ''detach'' [] w
      in SetVideoWhenResolved future None w1)"

subsection \<open>Load\<close>

definition Load :: "string \<Rightarrow> double \<Rightarrow> string \<Rightarrow> world \<Rightarrow> nat \<times> world" where
  "Load manifest_uri start_time mime_type w =
     CallMethod ''load''
       [JsString manifest_uri, LoadHelper_ToJsValue start_time, JsString mime_type] w"

subsection \<open>Between a call and the get\<close>

text \<open>
  What can happen to the wrapper and its surroundings, one thing at a time: the engine
  thread resolves a remote call; an observer gets a deferred future (a get that would
  block is taken when it can return); \<^verbatim>\<open>Attach\<close>, \<^verbatim>\<open>Detach\<close> or another method of the
  wrapper is called; the registry is changed.
\<close>

datatype action =
    Resolves nat "unit variant_type"
  | Gets nat
  | Attaches "nat option"
  | Detaches
  | Calls string "js_value list"
  | Registry registry_op

fun act :: "action \<Rightarrow> world \<Rightarrow> world" where
  "act (Resolves future results) w = resolve future results w"
| "act (Gets d) w = (case deferred_get d w of None \<Rightarrow> w | Some (results, w1) \<Rightarrow> w1)"
| "act (Attaches player) w = snd (Attach player w)"
| "act Detaches w = snd (Detach w)"
| "act (Calls name args) w = snd (CallMethod name args w)"
| "act (Registry x) w = w\<lparr>impl := apply_op x (impl w)\<rparr>"

fun acts :: "action list \<Rightarrow> world \<Rightarrow> world" where
  "acts [] w = w"
| "acts (a # as) w = acts as (act a w)"

subsection \<open>Initialize\<close>

text \<open>
  What the engine answers during \<^verbatim>\<open>Initialize\<close>: the type of the value found at
  \<^verbatim>\<open>shaka.Player\<close> (\<^verbatim>\<open>proto::ValueType\<close> is declared outside player.cc; only whether it is
  \<^verbatim>\<open>Function\<close> is read), the outcome of \<^verbatim>\<open>InvokeConstructor\<close> (the new object, or the
  exception thrown), and the outcomes of the two \<^verbatim>\<open>AttachEventListener\<close> calls and of the
  three method calls of \<^verbatim>\<open>AttachListeners\<close>.
\<close>

datatype ValueType = Function | OtherValueType nat

record js_engine =
  player_ctor_type :: ValueType
  construct :: "nat + nat"
  listen_error :: "unit variant_type"
  listen_buffering :: "unit variant_type"
  getNetworkingEngine :: "nat variant_type"
  registerRequestFilter :: "unit variant_type"
  registerResponseFilter :: "unit variant_type"

definition called :: "js_call \<Rightarrow> world \<Rightarrow> world" where
  "called c w = w\<lparr>js_calls := js_calls w @ [c]\<rparr>"

definition AttachListeners :: "js_engine \<Rightarrow> world \<Rightarrow> unit variant_type \<times> world" where
  "AttachListeners js w =
     (let w1 = called (JsAttachEventListener ''error'') w in
      case listen_error js of
        Inl e \<Rightarrow> (Inl e, w1)
      | Inr _ \<Rightarrow>
     (let w2 = called (JsAttachEventListener ''buffering'') w1 in
      case listen_buffering js of
        Inl e \<Rightarrow> (Inl e, w2)
      | Inr _ \<Rightarrow>
     (let w3 = called (JsCallMethod ''getNetworkingEngine'' []) w2 in
      case getNetworkingEngine js of
        Inl e \<Rightarrow> (Inl e, w3)
      | Inr net_engine \<Rightarrow>
     (let w4 = called (JsCallMethod ''registerRequestFilter'' []) w3 in
      case registerRequestFilter js of
        Inl e \<Rightarrow> (Inl e, w4)
      | Inr _ \<Rightarrow>
     (let w5 = called (JsCallMethod ''registerResponseFilter'' []) w4 in
      case registerResponseFilter js of
        Inl e \<Rightarrow> (Inl e, w5)
      | Inr _ \<Rightarrow> (Inr (), w5))))))"

text \<open>
  The callback that \<^verbatim>\<open>Initialize\<close> runs as one task on the engine thread; its result is
  the value of the future that \<^verbatim>\<open>Initialize\<close> returns.
\<close>

definition Initialize :: "js_engine \<Rightarrow> nat option \<Rightarrow> world \<Rightarrow> unit variant_type \<times> world" where
  "Initialize js player w =
     (let w0 = called (JsGetDescendant [''shaka'', ''Player'']) w in
      if player_ctor_type js \<noteq> Function then
        (Inl (Error ''The constructor 'shaka.Player' is not found.''), w0)
      else
        (let (args, w1) =
               (case player of
                  Some pl \<Rightarrow>
                    (let new_elem = length (elements w0)
                     in ([JsObject new_elem],
                         w0\<lparr>elements := elements w0 @ [player],
                            impl := (impl w0)\<lparr>impl_video := Some new_elem\<rparr>\<rparr>))
                | None \<Rightarrow> ([], w0));
             w2 = called (JsInvokeConstructor args) w1
         in case construct js of
              Inl except \<Rightarrow> (Inl (ConvertError except), w2)
            | Inr obj \<Rightarrow>
                AttachListeners js (w2\<lparr>impl := (impl w2)\<lparr>impl_object := Some obj\<rparr>\<rparr>)))"

subsection \<open>The initialization sequence as a list of steps\<close>

text \<open>
  The steps of the initialization sequence in the order the callback takes them, each with
  the request it makes of the engine and its outcome: the lookup of the constructor
  (an Error when the value found is no function), the construction (the converted
  exception when it throws), the two listeners, and the three method calls of
  \<^verbatim>\<open>AttachListeners\<close>.
\<close>

definition init_steps :: "js_engine \<Rightarrow> nat option \<Rightarrow> world \<Rightarrow> (js_call \<times> unit variant_type) list" where
  "init_steps js player w =
     [(JsGetDescendant [''shaka'', ''Player''],
         if player_ctor_type js \<noteq> Function
         then Inl (Error ''The constructor 'shaka.Player' is not found.'') else Inr ()),
      (JsInvokeConstructor
         (case player of None \<Rightarrow> [] | Some pl \<Rightarrow> [JsObject (length (elements w))]),
         case construct js of Inl except \<Rightarrow> Inl (ConvertError except) | Inr obj \<Rightarrow> Inr ()),
      (JsAttachEventListener ''error'', listen_error js),
      (JsAttachEventListener ''buffering'', listen_buffering js),
      (JsCallMethod ''getNetworkingEngine'' [],
         case getNetworkingEngine js of Inl e \<Rightarrow> Inl e | Inr net_engine \<Rightarrow> Inr ()),
      (JsCallMethod ''registerRequestFilter'' [], registerRequestFilter js),
      (JsCallMethod ''registerResponseFilter'' [], registerResponseFilter js)]"

text \<open>
  A sequence of steps that is given up at the first step that fails: the requests made,
  ending with the failing one, and the failing step's Error, or success when none fails.
\<close>

fun abort_at_first_failure ::
  "(js_call \<times> unit variant_type) list \<Rightarrow> js_call list \<times> unit variant_type" where
  "abort_at_first_failure [] = ([], Inr ())"
| "abort_at_first_failure ((c, Inl e) # rest) = ([c], Inl e)"
| "abort_at_first_failure ((c, Inr u) # rest) =
     (c # fst (abort_at_first_failure rest), snd (abort_at_first_failure rest))"

section \<open>Properties\<close>

subsection \<open>Removal from the registry\<close>

lemma length_remove_loop: "length (remove_loop f fs) = length fs"
  by (induction fs) simp_all

lemma nth_remove_loop:
  "i < length fs \<Longrightarrow> remove_loop f fs ! i = (if fs ! i = f then None else fs ! i)"
proof (induction fs arbitrary: i)
  case Nil
  then show ?case by simp
next
  case (Cons e es)
  then show ?case by (cases i) simp_all
qed

lemma remove_loop_absent: "f \<notin> set fs \<or> f = None \<Longrightarrow> remove_loop f fs = fs"
  by (induction fs) auto

lemma remove_loop_twice: "remove_loop f (remove_loop f fs) = remove_loop f fs"
  by (induction fs) simp_all

text \<open>
  Claim C4. For every state of the registry, \<^verbatim>\<open>RemoveNetworkFilters(f)\<close> keeps the length
  of the backing sequence, writes the tombstone \<^verbatim>\<open>nullptr\<close> into every position whose entry
  equals \<open>f\<close> (however often \<open>f\<close> was registered), leaves every other position as it
  was, and touches no other member; so a position taken before the call names the same
  slot after it.
\<close>

theorem RemoveNetworkFilters_tombstones:
  "length (impl_filters (RemoveNetworkFilters f s)) = length (impl_filters s) \<and>
   (\<forall>i. i < length (impl_filters s) \<longrightarrow>
      impl_filters (RemoveNetworkFilters f s) ! i =
        (if impl_filters s ! i = f then None else impl_filters s ! i)) \<and>
   impl_video (RemoveNetworkFilters f s) = impl_video s \<and>
   impl_object (RemoveNetworkFilters f s) = impl_object s"
  by (simp add: RemoveNetworkFilters_def length_remove_loop nth_remove_loop)

theorem RemoveNetworkFilters_tombstones_witness:
  "(2::nat) < length (impl_filters \<lparr>impl_object = None, impl_video = None,
       impl_filters = [Some 1, Some 2, Some 1]\<rparr>) \<and>
   impl_filters (RemoveNetworkFilters (Some 1) \<lparr>impl_object = None, impl_video = None,
       impl_filters = [Some 1, Some 2, Some 1]\<rparr>) = [None, Some 2, None] \<and>
   impl_filters (RemoveNetworkFilters (Some 1) \<lparr>impl_object = None, impl_video = None,
       impl_filters = [Some 1, Some 2, Some 1]\<rparr>) ! 2 = None"
  using RemoveNetworkFilters_tombstones [of "Some 1" "\<lparr>impl_object = None, impl_video = None,
       impl_filters = [Some 1, Some 2, Some 1]\<rparr>"]
  by (simp add: RemoveNetworkFilters_def)

text \<open>
  Claim C10. \<^verbatim>\<open>RemoveNetworkFilters\<close> is defined on every state; removing a pointer that
  no entry holds (never added, or every entry of it already tombstoned), or the null
  pointer, returns the state unchanged; removing the same pointer twice gives the state
  that removing it once gives.
\<close>

theorem RemoveNetworkFilters_idempotent:
  "(f \<notin> set (impl_filters s) \<or> f = None \<longrightarrow> RemoveNetworkFilters f s = s) \<and>
   RemoveNetworkFilters f (RemoveNetworkFilters f s) = RemoveNetworkFilters f s"
  by (simp add: RemoveNetworkFilters_def remove_loop_absent remove_loop_twice)

theorem RemoveNetworkFilters_idempotent_witness:
  "Some 7 \<notin> set (impl_filters \<lparr>impl_object = None, impl_video = Some 0,
       impl_filters = [Some 1, None, Some 2]\<rparr>) \<and>
   RemoveNetworkFilters (Some 7) \<lparr>impl_object = None, impl_video = Some 0,
       impl_filters = [Some 1, None, Some 2]\<rparr> =
     \<lparr>impl_object = None, impl_video = Some 0, impl_filters = [Some 1, None, Some 2]\<rparr> \<and>
   RemoveNetworkFilters (Some 1) (RemoveNetworkFilters (Some 1) \<lparr>impl_object = None,
       impl_video = Some 0, impl_filters = [Some 1, None, Some 2]\<rparr>) =
     \<lparr>impl_object = None, impl_video = Some 0, impl_filters = [None, None, Some 2]\<rparr>"
  using RemoveNetworkFilters_idempotent [of "Some 7" "\<lparr>impl_object = None, impl_video = Some 0,
       impl_filters = [Some 1, None, Some 2]\<rparr>"]
    RemoveNetworkFilters_idempotent [of "Some 1" "\<lparr>impl_object = None, impl_video = Some 0,
       impl_filters = [Some 1, None, Some 2]\<rparr>"]
  by (simp add: RemoveNetworkFilters_def)

subsection \<open>The scan for the next live entry\<close>

lemma scan_loop_Some:
  "scan_loop fs it = Some (i, p) \<Longrightarrow>
     it \<le> i \<and> i < length fs \<and> fs ! i = Some p \<and> (\<forall>j. it \<le> j \<and> j < i \<longrightarrow> fs ! j = None)"
proof (induction fs it rule: scan_loop.induct)
  case (1 fs it)
  show ?case
  proof (cases "it < length fs")
    case False
    with "1.prems" show ?thesis by (simp add: scan_loop.simps)
  next
    case inside: True
    show ?thesis
    proof (cases "fs ! it")
      case None
      with inside "1.prems" have "scan_loop fs (Suc it) = Some (i, p)"
        by (simp add: scan_loop.simps [of fs it])
      with "1.IH" inside None
      have ih: "Suc it \<le> i \<and> i < length fs \<and> fs ! i = Some p \<and>
                (\<forall>j. Suc it \<le> j \<and> j < i \<longrightarrow> fs ! j = None)"
        by simp
      have "fs ! j = None" if "it \<le> j" "j < i" for j
      proof (cases "j = it")
        case True
        with None show ?thesis by simp
      next
        case False
        with that ih show ?thesis by simp
      qed
      with ih show ?thesis by simp
    next
      case (Some q)
      with inside "1.prems" show ?thesis
        by (auto simp add: scan_loop.simps [of fs it])
    qed
  qed
qed

lemma scan_loop_None:
  "scan_loop fs it = None \<longleftrightarrow> (\<forall>j. it \<le> j \<and> j < length fs \<longrightarrow> fs ! j = None)"
proof (induction fs it rule: scan_loop.induct)
  case (1 fs it)
  show ?case
  proof (cases "it < length fs")
    case False
    then show ?thesis by (auto simp add: scan_loop.simps [of fs it])
  next
    case inside: True
    show ?thesis
    proof (cases "fs ! it")
      case None
      have "(\<forall>j. it \<le> j \<and> j < length fs \<longrightarrow> fs ! j = None) \<longleftrightarrow>
            (\<forall>j. Suc it \<le> j \<and> j < length fs \<longrightarrow> fs ! j = None)"
        using None by (metis Suc_leD Suc_leI le_neq_implies_less)
      with "1.IH" inside None show ?thesis
        by (simp add: scan_loop.simps [of fs it])
    next
      case (Some q)
      with inside show ?thesis
        by (auto simp add: scan_loop.simps [of fs it])
    qed
  qed
qed

lemma live_from_end: "length fs \<le> it \<Longrightarrow> live_from it fs = []"
  by (simp add: live_from_def)

lemma live_from_step:
  "it < length fs \<Longrightarrow>
   live_from it fs = (case fs ! it of None \<Rightarrow> [] | Some p \<Rightarrow> [(it, p)]) @ live_from (Suc it) fs"
  by (simp add: live_from_def upt_conv_Cons)

lemma scan_loop_live_from:
  "scan_loop fs it = (case live_from it fs of [] \<Rightarrow> None | v # vs \<Rightarrow> Some v)"
proof (induction fs it rule: scan_loop.induct)
  case (1 fs it)
  show ?case
  proof (cases "it < length fs")
    case False
    then show ?thesis by (simp add: scan_loop.simps [of fs it] live_from_end)
  next
    case inside: True
    show ?thesis
    proof (cases "fs ! it")
      case None
      with "1.IH" inside show ?thesis
        by (simp add: scan_loop.simps [of fs it] live_from_step)
    next
      case (Some q)
      with inside show ?thesis
        by (simp add: scan_loop.simps [of fs it] live_from_step)
    qed
  qed
qed

lemma live_from_scan:
  "scan_loop fs it = Some (i, p) \<Longrightarrow> live_from it fs = (i, p) # live_from (Suc i) fs"
proof (induction fs it rule: scan_loop.induct)
  case (1 fs it)
  show ?case
  proof (cases "it < length fs")
    case False
    with "1.prems" show ?thesis by (simp add: scan_loop.simps [of fs it])
  next
    case inside: True
    show ?thesis
    proof (cases "fs ! it")
      case None
      with "1.IH" "1.prems" inside show ?thesis
        by (simp add: scan_loop.simps [of fs it] live_from_step)
    next
      case (Some q)
      with "1.prems" inside show ?thesis
        by (simp add: scan_loop.simps [of fs it] live_from_step)
    qed
  qed
qed

subsection \<open>Runs of the chain\<close>

lemma settle_append: "settle pr (xs @ ys) = settle (settle pr xs) ys"
  by (induction pr xs rule: settle.induct) simp_all

lemma run_chain_at_end:
  "scan_loop (impl_filters s) it = None \<Longrightarrow>
   run_chain sched s it = [Lock, Unlock, Finalize, ResolveWith]"
  by (cases sched) (auto simp: StepNetworkFilter_def)

lemma run_chain_pending:
  "scan_loop (impl_filters s) it = Some (i, p) \<Longrightarrow>
   run_chain [] s it = [Lock, OnFilter i p, HandleFuture, Unlock]"
  by (simp add: StepNetworkFilter_def)

lemma run_chain_rejected:
  "scan_loop (impl_filters s) it = Some (i, p) \<Longrightarrow>
   run_chain ((ops, Some e) # sched) s it =
     [Lock, OnFilter i p, HandleFuture, Unlock, Finalize, RejectWith e]"
  by (simp add: StepNetworkFilter_def HandleNetworkFuture_def failure_path_def)

lemma run_chain_continued:
  "scan_loop (impl_filters s) it = Some (i, p) \<Longrightarrow>
   run_chain ((ops, None) # sched) s it =
     [Lock, OnFilter i p, HandleFuture, Unlock] @ run_chain sched (apply_ops ops s) (Suc i)"
  by (simp add: StepNetworkFilter_def HandleNetworkFuture_def)

declare run_chain.simps [simp del]

lemma visits_from:
  "\<forall>v \<in> set (visits (run_chain sched s it)). it \<le> fst v"
proof (induction sched arbitrary: s it)
  case Nil
  show ?case
  proof (cases "scan_loop (impl_filters s) it")
    case None
    then show ?thesis by (simp add: run_chain_at_end)
  next
    case (Some v)
    then show ?thesis
      using scan_loop_Some [of "impl_filters s" it "fst v" "snd v"]
      by (simp add: run_chain_pending [of s it "fst v" "snd v"])
  qed
next
  case (Cons x sched)
  obtain ops outcome where x: "x = (ops, outcome)" by (cases x)
  show ?case
  proof (cases "scan_loop (impl_filters s) it")
    case None
    then show ?thesis by (simp add: run_chain_at_end)
  next
    case (Some v)
    obtain i p where v: "v = (i, p)" by (cases v)
    from Some v have le: "it \<le> i"
      using scan_loop_Some [of "impl_filters s" it i p] by simp
    show ?thesis
    proof (cases outcome)
      case None
      have "\<forall>w \<in> set (visits (run_chain sched (apply_ops ops s) (Suc i))). Suc i \<le> fst w"
        by (rule Cons.IH)
      with le have "\<forall>w \<in> set (visits (run_chain sched (apply_ops ops s) (Suc i))). it \<le> fst w"
        by auto
      with Some v x None le show ?thesis
        by (simp add: run_chain_continued)
    next
      case (Some e)
      with \<open>scan_loop (impl_filters s) it = Some v\<close> v x le show ?thesis
        by (simp add: run_chain_rejected)
    qed
  qed
qed

lemma visits_increasing:
  "sorted_wrt (<) (map fst (visits (run_chain sched s it)))"
proof (induction sched arbitrary: s it)
  case Nil
  show ?case
  proof (cases "scan_loop (impl_filters s) it")
    case None
    then show ?thesis by (simp add: run_chain_at_end)
  next
    case (Some v)
    then show ?thesis
      by (simp add: run_chain_pending [of s it "fst v" "snd v"])
  qed
next
  case (Cons x sched)
  obtain ops outcome where x: "x = (ops, outcome)" by (cases x)
  show ?case
  proof (cases "scan_loop (impl_filters s) it")
    case None
    then show ?thesis by (simp add: run_chain_at_end)
  next
    case (Some v)
    obtain i p where v: "v = (i, p)" by (cases v)
    show ?thesis
    proof (cases outcome)
      case None
      have "\<forall>w \<in> set (visits (run_chain sched (apply_ops ops s) (Suc i))). Suc i \<le> fst w"
        by (rule visits_from)
      then have "\<forall>w \<in> set (visits (run_chain sched (apply_ops ops s) (Suc i))). i < fst w"
        by auto
      moreover have "sorted_wrt (<) (map fst (visits (run_chain sched (apply_ops ops s) (Suc i))))"
        by (rule Cons.IH)
      ultimately show ?thesis
        using Some v x None by (simp add: run_chain_continued)
    next
      case (Some e)
      with \<open>scan_loop (impl_filters s) it = Some v\<close> v x show ?thesis
        by (simp add: run_chain_rejected)
    qed
  qed
qed

lemma visits_all_succeed:
  "visits (run_chain (replicate n ([], None)) s it) = take (Suc n) (live_from it (impl_filters s))"
proof (induction n arbitrary: it)
  case 0
  show ?case
  proof (cases "scan_loop (impl_filters s) it")
    case None
    then show ?thesis
      using scan_loop_live_from [of "impl_filters s" it]
      by (simp add: run_chain_at_end split: list.splits)
  next
    case (Some v)
    then show ?thesis
      using live_from_scan [of "impl_filters s" it "fst v" "snd v"]
      by (simp add: run_chain_pending [of s it "fst v" "snd v"])
  qed
next
  case (Suc n)
  show ?case
  proof (cases "scan_loop (impl_filters s) it")
    case None
    then show ?thesis
      using scan_loop_live_from [of "impl_filters s" it]
      by (simp add: run_chain_at_end split: list.splits)
  next
    case (Some v)
    obtain i p where v: "v = (i, p)" by (cases v)
    with Some Suc.IH [of "Suc i"] show ?thesis
      using live_from_scan [of "impl_filters s" it i p]
      by (simp add: run_chain_continued)
  qed
qed

lemma run_error_at:
  "m < length (live_from it (impl_filters s)) \<Longrightarrow>
   visits (run_chain (replicate m ([], None) @ ([], Some e) # rest) s it) =
     take (Suc m) (live_from it (impl_filters s)) \<and>
   settle Pending (run_chain (replicate m ([], None) @ ([], Some e) # rest) s it) = Rejected e \<and>
   count_list (run_chain (replicate m ([], None) @ ([], Some e) # rest) s it) Finalize = 1"
proof (induction m arbitrary: it)
  case 0
  then obtain i p vs where "live_from it (impl_filters s) = (i, p) # vs"
    by (cases "live_from it (impl_filters s)") auto
  then have sc: "scan_loop (impl_filters s) it = Some (i, p)"
    by (simp add: scan_loop_live_from)
  from live_from_scan [OF sc] sc show ?case
    by (simp add: run_chain_rejected)
next
  case (Suc m)
  then obtain i p vs where "live_from it (impl_filters s) = (i, p) # vs"
    by (cases "live_from it (impl_filters s)") auto
  then have sc: "scan_loop (impl_filters s) it = Some (i, p)"
    by (simp add: scan_loop_live_from)
  note l = live_from_scan [OF sc]
  with Suc.prems have "m < length (live_from (Suc i) (impl_filters s))"
    by simp
  from Suc.IH [OF this] sc l show ?case
    by (simp add: run_chain_continued settle_append)
qed

lemma finalize_once_settled:
  "count_list (run_chain sched s it) Finalize =
     (if settle Pending (run_chain sched s it) = Pending then 0 else 1)"
proof (induction sched arbitrary: s it)
  case Nil
  show ?case
  proof (cases "scan_loop (impl_filters s) it")
    case None
    then show ?thesis by (simp add: run_chain_at_end)
  next
    case (Some v)
    then show ?thesis
      by (simp add: run_chain_pending [of s it "fst v" "snd v"])
  qed
next
  case (Cons x sched)
  obtain ops outcome where x: "x = (ops, outcome)" by (cases x)
  show ?case
  proof (cases "scan_loop (impl_filters s) it")
    case None
    then show ?thesis by (simp add: run_chain_at_end)
  next
    case (Some v)
    obtain i p where v: "v = (i, p)" by (cases v)
    show ?thesis
    proof (cases outcome)
      case None
      with Some v x Cons.IH [of "apply_ops ops s" "Suc i"] show ?thesis
        by (simp add: run_chain_continued settle_append)
    next
      case (Some e)
      with \<open>scan_loop (impl_filters s) it = Some v\<close> v x show ?thesis
        by (simp add: run_chain_rejected)
    qed
  qed
qed

lemma error_after_successes:
  assumes "\<forall>x \<in> set pre. snd x = None"
  shows "visits (run_chain (pre @ (ops, Some e) # rest) s it) =
           take (Suc (length pre)) (visits (run_chain (pre @ (ops, None) # rest') s it)) \<and>
         (length pre < length (visits (run_chain (pre @ (ops, None) # rest') s it)) \<longrightarrow>
            settle Pending (run_chain (pre @ (ops, Some e) # rest) s it) = Rejected e)"
  using assms
proof (induction pre arbitrary: s it)
  case Nil
  show ?case
  proof (cases "scan_loop (impl_filters s) it")
    case None
    then show ?thesis by (simp add: run_chain_at_end)
  next
    case (Some v)
    obtain i p where v: "v = (i, p)" by (cases v)
    with Some show ?thesis
      by (simp add: run_chain_rejected run_chain_continued)
  qed
next
  case (Cons x pre)
  obtain ops0 where x: "x = (ops0, None)"
    using Cons.prems by (cases x) simp
  from Cons.prems have rest_ok: "\<forall>y \<in> set pre. snd y = None"
    by simp
  show ?case
  proof (cases "scan_loop (impl_filters s) it")
    case None
    then show ?thesis by (simp add: run_chain_at_end)
  next
    case (Some v)
    obtain i p where v: "v = (i, p)" by (cases v)
    with Some x Cons.IH [OF rest_ok, of "apply_ops ops0 s" "Suc i"] show ?thesis
      by (simp add: run_chain_continued)
  qed
qed

lemma run_chain_lock:
  "lock_after h (run_chain sched s it) = False \<and>
   (\<forall>x \<in> set (under_lock h (run_chain sched s it)). snd x = starts_step (fst x))"
proof (induction sched arbitrary: s it h)
  case Nil
  show ?case
  proof (cases "scan_loop (impl_filters s) it")
    case None
    then show ?thesis by (simp add: run_chain_at_end)
  next
    case (Some v)
    then show ?thesis
      by (simp add: run_chain_pending [of s it "fst v" "snd v"])
  qed
next
  case (Cons x sched)
  obtain ops outcome where x: "x = (ops, outcome)" by (cases x)
  show ?case
  proof (cases "scan_loop (impl_filters s) it")
    case None
    then show ?thesis by (simp add: run_chain_at_end)
  next
    case (Some v)
    obtain i p where v: "v = (i, p)" by (cases v)
    show ?thesis
    proof (cases outcome)
      case None
      with Some v x Cons.IH [of False "apply_ops ops s" "Suc i"] show ?thesis
        by (simp add: run_chain_continued)
    next
      case (Some e)
      with \<open>scan_loop (impl_filters s) it = Some v\<close> v x show ?thesis
        by (simp add: run_chain_rejected)
    qed
  qed
qed

lemma tombstone_stays:
  "i < length (impl_filters s) \<Longrightarrow> impl_filters s ! i = None \<Longrightarrow>
   i < length (impl_filters (apply_ops ops s)) \<and> impl_filters (apply_ops ops s) ! i = None"
proof (induction ops arbitrary: s)
  case Nil
  then show ?case by simp
next
  case (Cons x ops)
  have "i < length (impl_filters (apply_op x s)) \<and> impl_filters (apply_op x s) ! i = None"
  proof (cases x)
    case (Add f)
    with Cons.prems show ?thesis
      by (simp add: AddNetworkFilters_def nth_append)
  next
    case (Remove f)
    with Cons.prems show ?thesis
      by (simp add: RemoveNetworkFilters_def length_remove_loop nth_remove_loop)
  qed
  then show ?case
    using Cons.IH [of "apply_op x s"] by simp
qed

lemma all_tombstones_scan:
  assumes "\<forall>e \<in> set fs. e = None"
  shows "scan_loop fs it = None"
proof -
  have "fs ! j = None" if "j < length fs" for j
    using assms that nth_mem by blast
  then show ?thesis by (simp add: scan_loop_None)
qed

subsection \<open>The chain's terminal outcome\<close>

text \<open>
  Claim C5. When no entry of the registry is live (the list is empty or holds only
  tombstones), a run started at \<^verbatim>\<open>filters_.begin()\<close> takes and releases the lock, calls
  the payload's \<^verbatim>\<open>Finalize\<close> exactly once and then resolves the Promise: the run calls no
  filter and its result is success.
\<close>

theorem no_live_filters_resolves:
  assumes "\<forall>e \<in> set (impl_filters s). e = None"
  shows "req_filter sched s = [Lock, Unlock, Finalize, ResolveWith] \<and>
         count_list (req_filter sched s) Finalize = 1 \<and>
         visits (req_filter sched s) = [] \<and>
         settle Pending (req_filter sched s) = Resolved"
proof -
  from assms have "scan_loop (impl_filters s) 0 = None"
    by (rule all_tombstones_scan)
  then have "req_filter sched s = [Lock, Unlock, Finalize, ResolveWith]"
    by (simp add: req_filter_def run_chain_at_end)
  then show ?thesis by simp
qed

theorem no_live_filters_resolves_witness:
  "set (impl_filters \<lparr>impl_object = Some 0, impl_video = None,
        impl_filters = [None, None]\<rparr>) = {None} \<and>
   count_list (req_filter [([Add (Some 1)], None)] \<lparr>impl_object = Some 0,
        impl_video = None, impl_filters = [None, None]\<rparr>) Finalize = 1 \<and>
   settle Pending (req_filter [([Add (Some 1)], None)] \<lparr>impl_object = Some 0,
        impl_video = None, impl_filters = [None, None]\<rparr>) = Resolved"
proof -
  have h: "\<forall>e \<in> set (impl_filters \<lparr>impl_object = Some 0, impl_video = None,
        impl_filters = [None, None]\<rparr>). e = None"
    by simp
  from no_live_filters_resolves [OF h, of "[([Add (Some 1)], None)]"]
  show ?thesis by simp
qed

text \<open>
  Claim C2. Take a run in which the first \<open>k - 1\<close> filters called succeed and the
  \<open>k\<close>-th returns the error \<open>e\<close>. Over a registry with \<open>N \<ge> k\<close> live entries that no one
  changes meanwhile, the filters called are exactly the first \<open>k\<close> live entries in
  registration order and none behind them, the Promise is rejected with \<open>e\<close>, and
  \<^verbatim>\<open>Finalize\<close> is called exactly once. When the registry is changed while filters are
  outstanding the same holds of the filters the run would call if the \<open>k\<close>-th succeeded
  too: the failing run calls the first \<open>k\<close> of them and no other, its result is \<open>e\<close>
  whenever there is a \<open>k\<close>-th filter to call, and every run that has ended, in success or
  in failure, has called \<^verbatim>\<open>Finalize\<close> exactly once.
\<close>

theorem error_stops_chain:
  assumes "1 \<le> k" and "k \<le> length (live_from 0 (impl_filters s))"
    and "\<forall>x \<in> set pre. snd x = None"
  shows "visits (req_filter (replicate (k - 1) ([], None) @ ([], Some e) # rest) s) =
           take k (live_from 0 (impl_filters s)) \<and>
         settle Pending (req_filter (replicate (k - 1) ([], None) @ ([], Some e) # rest) s) =
           Rejected e \<and>
         count_list (req_filter (replicate (k - 1) ([], None) @ ([], Some e) # rest) s)
           Finalize = 1 \<and>
         visits (req_filter (pre @ (ops, Some e) # rest) s) =
           take (Suc (length pre)) (visits (req_filter (pre @ (ops, None) # rest') s)) \<and>
         (length pre < length (visits (req_filter (pre @ (ops, None) # rest') s)) \<longrightarrow>
            settle Pending (req_filter (pre @ (ops, Some e) # rest) s) = Rejected e \<and>
            count_list (req_filter (pre @ (ops, Some e) # rest) s) Finalize = 1) \<and>
         count_list (req_filter sched s) Finalize =
           (if settle Pending (req_filter sched s) = Pending then 0 else 1)"
proof -
  from assms have "k - 1 < length (live_from 0 (impl_filters s))" and "Suc (k - 1) = k"
    by simp_all
  with run_error_at [of "k - 1" 0 s e rest]
  have static: "visits (req_filter (replicate (k - 1) ([], None) @ ([], Some e) # rest) s) =
           take k (live_from 0 (impl_filters s)) \<and>
         settle Pending (req_filter (replicate (k - 1) ([], None) @ ([], Some e) # rest) s) =
           Rejected e \<and>
         count_list (req_filter (replicate (k - 1) ([], None) @ ([], Some e) # rest) s)
           Finalize = 1"
    by (simp add: req_filter_def)
  note dyn = error_after_successes [OF assms(3), of ops e rest s 0 rest']
  note once = finalize_once_settled [of _ s 0]
  have ended: "count_list (req_filter (pre @ (ops, Some e) # rest) s) Finalize = 1"
    if "settle Pending (req_filter (pre @ (ops, Some e) # rest) s) = Rejected e"
    using that once [of "pre @ (ops, Some e) # rest"] by (simp add: req_filter_def)
  from static dyn once [of sched] ended show ?thesis
    by (simp add: req_filter_def)
qed

theorem error_stops_chain_witness:
  "(1::nat) \<le> 2 \<and>
   2 \<le> length (live_from 0 (impl_filters \<lparr>impl_object = Some 0, impl_video = None,
        impl_filters = [Some 1, None, Some 2, Some 3]\<rparr>)) \<and>
   snd ([Remove (Some 2), Add (Some 4)], None :: error option) = None \<and>
   visits (req_filter (replicate (2 - 1) ([], None) @ ([], Some (Error ''denied'')) # [])
      \<lparr>impl_object = Some 0, impl_video = None,
        impl_filters = [Some 1, None, Some 2, Some 3]\<rparr>) = [(0, 1), (2, 2)] \<and>
   settle Pending (req_filter (replicate (2 - 1) ([], None) @ ([], Some (Error ''denied'')) # [])
      \<lparr>impl_object = Some 0, impl_video = None,
        impl_filters = [Some 1, None, Some 2, Some 3]\<rparr>) = Rejected (Error ''denied'') \<and>
   count_list (req_filter (replicate (2 - 1) ([], None) @ ([], Some (Error ''denied'')) # [])
      \<lparr>impl_object = Some 0, impl_video = None,
        impl_filters = [Some 1, None, Some 2, Some 3]\<rparr>) Finalize = 1 \<and>
   visits (req_filter ([([Remove (Some 2), Add (Some 4)], None)] @
        ([], Some (Error ''denied'')) # [])
      \<lparr>impl_object = Some 0, impl_video = None,
        impl_filters = [Some 1, None, Some 2, Some 3]\<rparr>) = [(0, 1), (3, 3)] \<and>
   count_list (req_filter ([([Remove (Some 2), Add (Some 4)], None)] @
        ([], Some (Error ''denied'')) # [])
      \<lparr>impl_object = Some 0, impl_video = None,
        impl_filters = [Some 1, None, Some 2, Some 3]\<rparr>) Finalize = 1"
proof -
  have l: "live_from 0 (impl_filters \<lparr>impl_object = Some 0, impl_video = None,
        impl_filters = [Some 1, None, Some 2, Some 3]\<rparr>) = [(0, 1), (2, 2), (3, 3)]"
    by (simp add: live_from_def upt_conv_Cons)
  have h1: "(1::nat) \<le> 2" by simp
  have h2: "2 \<le> length (live_from 0 (impl_filters \<lparr>impl_object = Some 0, impl_video = None,
        impl_filters = [Some 1, None, Some 2, Some 3]\<rparr>))"
    unfolding l by simp
  have h3: "\<forall>x \<in> set [([Remove (Some 2), Add (Some 4)], None :: error option)]. snd x = None"
    by simp
  from error_stops_chain [OF h1 h2 h3, where e = "Error ''denied''" and rest = "[]"
      and sched = "[]" and ops = "[]" and rest' = "[]"] h1 h2 l
  show ?thesis
    by (simp add: req_filter_def run_chain.simps StepNetworkFilter_def scan_loop.simps
        HandleNetworkFuture_def failure_path_def AddNetworkFilters_def
        RemoveNetworkFilters_def)
qed

subsection \<open>The order of a traversal\<close>

text \<open>
  Claim C3. Whenever the scan from position \<open>it\<close> finds an entry, at position \<open>i\<close> with
  address \<open>p\<close>: that entry is the first live one at or after \<open>it\<close> in registration
  order, every entry skipped is a tombstone; once the filter's step has completed without
  error the traversal goes on from position \<open>i + 1\<close> over the registry as it then is; the
  positions a traversal calls are strictly increasing, so no position is called twice; over
  an unchanged registry whose filters all succeed the filters called are the live entries
  in registration order; and if \<open>p\<close> is removed and added again while its step is
  outstanding, position \<open>i\<close> holds a tombstone from then on, whatever else is added or
  removed, and everything the traversal calls afterwards lies behind \<open>i\<close>.
\<close>

theorem traversal_in_registration_order:
  assumes "scan_loop (impl_filters s) it = Some (i, p)"
  shows "(it \<le> i \<and> i < length (impl_filters s) \<and> impl_filters s ! i = Some p \<and>
          (\<forall>j. it \<le> j \<and> j < i \<longrightarrow> impl_filters s ! j = None)) \<and>
         visits (run_chain ((ops, None) # sched) s it) =
           (i, p) # visits (run_chain sched (apply_ops ops s) (Suc i)) \<and>
         sorted_wrt (<) (map fst (visits (run_chain sched' s it))) \<and>
         visits (run_chain (replicate n ([], None)) s it) =
           take (Suc n) (live_from it (impl_filters s)) \<and>
         impl_filters (apply_ops (Remove (Some p) # Add (Some p) # ops) s) ! i = None \<and>
         (\<forall>v \<in> set (visits (run_chain sched
                 (apply_ops (Remove (Some p) # Add (Some p) # ops) s) (Suc i))). i < fst v)"
proof -
  note found = scan_loop_Some [OF assms]
  have resume: "visits (run_chain ((ops, None) # sched) s it) =
      (i, p) # visits (run_chain sched (apply_ops ops s) (Suc i))"
    using assms by (simp add: run_chain_continued)
  have order: "sorted_wrt (<) (map fst (visits (run_chain sched' s it)))"
    by (rule visits_increasing)
  have static: "visits (run_chain (replicate n ([], None)) s it) =
      take (Suc n) (live_from it (impl_filters s))"
    by (rule visits_all_succeed)
  let ?r = "RemoveNetworkFilters (Some p) s"
  from found have "i < length (impl_filters ?r) \<and> impl_filters ?r ! i = None"
    by (simp add: RemoveNetworkFilters_def length_remove_loop nth_remove_loop)
  then have "impl_filters (apply_ops (Add (Some p) # ops) ?r) ! i = None"
    using tombstone_stays [of i ?r "Add (Some p) # ops"] by simp
  then have old: "impl_filters (apply_ops (Remove (Some p) # Add (Some p) # ops) s) ! i = None"
    by simp
  have "\<forall>v \<in> set (visits (run_chain sched
           (apply_ops (Remove (Some p) # Add (Some p) # ops) s) (Suc i))). Suc i \<le> fst v"
    by (rule visits_from)
  then have later: "\<forall>v \<in> set (visits (run_chain sched
           (apply_ops (Remove (Some p) # Add (Some p) # ops) s) (Suc i))). i < fst v"
    by auto
  from found resume order static old later show ?thesis
    by blast
qed

theorem traversal_in_registration_order_witness:
  "scan_loop (impl_filters \<lparr>impl_object = Some 0, impl_video = None,
       impl_filters = [None, Some 1, Some 2]\<rparr>) 0 = Some (1, 1) \<and>
   visits (run_chain (([Remove (Some 1), Add (Some 1)], None) # [([], None), ([], None)])
     \<lparr>impl_object = Some 0, impl_video = None, impl_filters = [None, Some 1, Some 2]\<rparr> 0) =
     [(1, 1), (2, 2), (3, 1)] \<and>
   impl_filters (apply_ops (Remove (Some 1) # Add (Some 1) # [])
     \<lparr>impl_object = Some 0, impl_video = None, impl_filters = [None, Some 1, Some 2]\<rparr>) =
     [None, None, Some 2, Some 1]"
proof -
  have h: "scan_loop (impl_filters \<lparr>impl_object = Some 0, impl_video = None,
       impl_filters = [None, Some 1, Some 2]\<rparr>) 0 = Some (1, 1)"
    by (simp add: scan_loop.simps)
  from traversal_in_registration_order [OF h, where ops = "[Remove (Some 1), Add (Some 1)]"
      and sched = "[([], None), ([], None)]" and sched' = "[]" and n = 0] h
  show ?thesis
    by (simp add: run_chain.simps StepNetworkFilter_def scan_loop.simps
        HandleNetworkFuture_def AddNetworkFilters_def RemoveNetworkFilters_def)
qed

subsection \<open>The scope of the registry lock\<close>

text \<open>
  Claim C8, as the code has it. Every step releases the lock before it returns, so the
  lock is free while a filter's future is outstanding and when the run goes on or ends;
  \<^verbatim>\<open>Finalize\<close> and the settling of the Promise happen with the lock free. The calls that
  begin a filter's asynchronous step, the filter's \<^verbatim>\<open>on_filter\<close> member and
  \<^verbatim>\<open>HandleNetworkFuture\<close>, are made inside the lock's block, with the lock held.
\<close>

theorem lock_scope:
  "lock_after False (fst (StepNetworkFilter s it)) = False \<and>
   (\<forall>x \<in> set (under_lock False (fst (StepNetworkFilter s it))). snd x = starts_step (fst x)) \<and>
   lock_after False (run_chain sched s it) = False \<and>
   (\<forall>x \<in> set (under_lock False (run_chain sched s it)). snd x = starts_step (fst x))"
  using run_chain_lock [of False sched s it] run_chain_lock [of False "[]" s it]
  by (simp add: run_chain.simps)

theorem lock_scope_witness:
  "(OnFilter 1 7, True) \<in> set (under_lock False (run_chain [([], None)]
      \<lparr>impl_object = Some 0, impl_video = None, impl_filters = [None, Some 7]\<rparr> 0)) \<and>
   (Finalize, False) \<in> set (under_lock False (run_chain [([], None)]
      \<lparr>impl_object = Some 0, impl_video = None, impl_filters = [None, Some 7]\<rparr> 0)) \<and>
   lock_after False (run_chain [([], None)]
      \<lparr>impl_object = Some 0, impl_video = None, impl_filters = [None, Some 7]\<rparr> 0) = False"
  using lock_scope [of "\<lparr>impl_object = Some 0, impl_video = None,
      impl_filters = [None, Some 7]\<rparr>" 0 "[([], None)]"]
  by (simp add: run_chain.simps StepNetworkFilter_def scan_loop.simps
      HandleNetworkFuture_def)

text \<open>
  The claim as the spec states it has every filter's step begin outside the lock's scope.
  In a step over a registry with one live filter, the call of the filter is made with the
  lock held.
\<close>

theorem lock_held_at_filter_call_counterexample:
  "(OnFilter 0 1, True) \<in> set (under_lock False (fst (StepNetworkFilter
      \<lparr>impl_object = Some 0, impl_video = None, impl_filters = [Some 1]\<rparr> 0)))"
  by (simp add: StepNetworkFilter_def scan_loop.simps)

subsection \<open>The start time of Load\<close>

lemma isnan_examples:
  "isnan 0x7FF8000000000000 \<and> isnan 0xFFF0000000000001 \<and>
   \<not> isnan 0x7FF0000000000000 \<and> \<not> isnan 0 \<and> \<not> isnan 0x3FF0000000000000"
  by (simp add: isnan_def)

text \<open>
  Claim C7. The \<^verbatim>\<open>start_time\<close> of \<^verbatim>\<open>Load\<close> reaches the engine, as the second argument of
  the call of \<^verbatim>\<open>load\<close>, as \<^verbatim>\<open>undefined\<close> when it is a NaN and as the number of the same
  value otherwise.
\<close>

theorem Load_start_time:
  "LoadHelper_ToJsValue start_time = (if isnan start_time then JsUndefined else JsNumber start_time) \<and>
   js_calls (snd (Load manifest_uri start_time mime_type w)) =
     js_calls w @ [JsCallMethod ''load''
       [JsString manifest_uri,
        if isnan start_time then JsUndefined else JsNumber start_time,
        JsString mime_type]]"
  by (simp add: Load_def LoadHelper_ToJsValue_def CallMethod_def)

subsection \<open>The held sink\<close>

lemma Attach_eq:
  "Attach player w =
     (length (deferreds w),
      w\<lparr>elements := elements w @ [player],
        js_calls := js_calls w @ [JsCallMethod ''attach'' [JsObject (length (elements w))]],
        js_futures := js_futures w @ [None],
        deferreds := deferreds w @
          [Deferred (length (js_futures w)) (Some (length (elements w))) None]\<rparr>)"
  by (simp add: Attach_def CallMethod_def SetVideoWhenResolved_def Let_def)

lemma Detach_eq:
  "Detach w =
     (length (deferreds w),
      w\<lparr>js_calls := js_calls w @ [JsCallMethod ''detach'' []],
        js_futures := js_futures w @ [None],
        deferreds := deferreds w @ [Deferred (length (js_futures w)) None None]\<rparr>)"
  by (simp add: Detach_def CallMethod_def SetVideoWhenResolved_def Let_def)

lemma then_lambda_deferreds:
  "then_lambda future video w = Some (results, w1) \<Longrightarrow> deferreds w1 = deferreds w"
  by (auto simp: then_lambda_def detach_held_def Let_def split: option.splits if_splits)

lemma deferred_get_deferreds:
  assumes "deferred_get d' w = Some (results, w1)"
  shows "length (deferreds w1) = length (deferreds w) \<and>
         (\<forall>d. d \<noteq> d' \<longrightarrow> deferreds w1 ! d = deferreds w ! d)"
proof -
  from assms have inside: "d' < length (deferreds w)"
    by (simp add: deferred_get_def split: if_splits)
  obtain f v st where entry: "deferreds w ! d' = Deferred f v st"
    by (cases "deferreds w ! d'")
  show ?thesis
  proof (cases st)
    case (Some stored)
    with assms inside entry show ?thesis
      by (simp add: deferred_get_def)
  next
    case None
    with assms inside entry obtain w0 where run: "then_lambda f v w = Some (results, w0)"
        and w1: "w1 = w0\<lparr>deferreds := (deferreds w0)[d' := Deferred f v (Some results)]\<rparr>"
      by (auto simp: deferred_get_def split: option.splits)
    from then_lambda_deferreds [OF run] w1 show ?thesis
      by simp
  qed
qed

lemma act_keeps_entry:
  assumes "d < length (deferreds w)" and "a \<noteq> Gets d"
  shows "d < length (deferreds (act a w)) \<and> deferreds (act a w) ! d = deferreds w ! d"
proof (cases a)
  case (Resolves f r)
  with assms show ?thesis by (simp add: resolve_def)
next
  case (Gets d')
  with assms have ne: "d \<noteq> d'" by simp
  show ?thesis
  proof (cases "deferred_get d' w")
    case None
    with Gets assms show ?thesis by simp
  next
    case (Some r)
    obtain results w1 where r: "r = (results, w1)" by (cases r)
    from deferred_get_deferreds [of d' w results w1] Some r ne assms(1) Gets
    show ?thesis by simp
  qed
next
  case (Attaches player)
  with assms show ?thesis by (simp add: Attach_eq nth_append)
next
  case Detaches
  with assms show ?thesis by (simp add: Detach_eq nth_append)
next
  case (Calls name args)
  with assms show ?thesis by (simp add: CallMethod_def)
next
  case (Registry x)
  with assms show ?thesis by simp
qed

lemma acts_keep_entry:
  "d < length (deferreds w) \<Longrightarrow> Gets d \<notin> set as \<Longrightarrow>
   d < length (deferreds (acts as w)) \<and> deferreds (acts as w) ! d = deferreds w ! d"
proof (induction as arbitrary: w)
  case Nil
  then show ?case by simp
next
  case (Cons a as)
  from Cons.prems have "a \<noteq> Gets d" and rest: "Gets d \<notin> set as"
    by auto
  from act_keeps_entry [OF Cons.prems(1) this(1)]
  have step: "d < length (deferreds (act a w))" "deferreds (act a w) ! d = deferreds w ! d"
    by simp_all
  from Cons.IH [OF step(1) rest] step(2) show ?case
    by simp
qed

lemma act_keeps_stored:
  assumes "d < length (deferreds w)" and "deferreds w ! d = Deferred f v (Some r)"
  shows "d < length (deferreds (act a w)) \<and> deferreds (act a w) ! d = Deferred f v (Some r)"
proof (cases "a = Gets d")
  case True
  with assms show ?thesis by (simp add: deferred_get_def)
next
  case False
  from act_keeps_entry [OF assms(1) False] assms(2) show ?thesis by simp
qed

lemma acts_keep_stored:
  "d < length (deferreds w) \<Longrightarrow> deferreds w ! d = Deferred f v (Some r) \<Longrightarrow>
   d < length (deferreds (acts as w)) \<and> deferreds (acts as w) ! d = Deferred f v (Some r)"
proof (induction as arbitrary: w)
  case Nil
  then show ?case by simp
next
  case (Cons a as)
  from act_keeps_stored [OF Cons.prems, of a] Cons.IH [of "act a w"] show ?case
    by simp
qed

lemma later_gets:
  assumes "d < length (deferreds w)" and "deferreds w ! d = Deferred f v (Some r)"
  shows "deferred_get d (acts as w) = Some (r, acts as w)"
  using acts_keep_stored [OF assms, of as] by (simp add: deferred_get_def)

lemma first_get:
  assumes "d < length (deferreds w)" and "deferreds w ! d = Deferred f v None"
  shows "(future_get f w = None \<longrightarrow> deferred_get d w = None) \<and>
         (\<forall>e. future_get f w = Some (Inl e) \<longrightarrow>
            (\<exists>w1. deferred_get d w = Some (Inl e, w1) \<and>
               impl w1 = impl w \<and> detached w1 = detached w \<and>
               (\<forall>bs. deferred_get d (acts bs w1) = Some (Inl e, acts bs w1)))) \<and>
         (\<forall>u. future_get f w = Some (Inr u) \<longrightarrow>
            (\<exists>w1. deferred_get d w = Some (Inr u, w1) \<and>
               impl_video (impl w1) = v \<and>
               detached w1 =
                 detached w @ (case impl_video (impl w) of None \<Rightarrow> [] | Some x \<Rightarrow> [x]) \<and>
               impl_filters (impl w1) = impl_filters (impl w) \<and>
               impl_object (impl w1) = impl_object (impl w) \<and>
               (\<forall>bs. deferred_get d (acts bs w1) = Some (Inr u, acts bs w1))))"
proof (cases "future_get f w")
  case None
  with assms show ?thesis
    by (simp add: deferred_get_def then_lambda_def)
next
  case (Some results)
  show ?thesis
  proof (cases results)
    case (Inl e)
    let ?w1 = "w\<lparr>deferreds := (deferreds w)[d := Deferred f v (Some (Inl e))]\<rparr>"
    from Some Inl assms have g: "deferred_get d w = Some (Inl e, ?w1)"
      by (simp add: deferred_get_def then_lambda_def)
    from assms(1) have "d < length (deferreds ?w1)"
        and "deferreds ?w1 ! d = Deferred f v (Some (Inl e))"
      by simp_all
    then have "deferred_get d (acts bs ?w1) = Some (Inl e, acts bs ?w1)" for bs
      by (rule later_gets)
    with g Some Inl show ?thesis
      by simp
  next
    case (Inr u)
    let ?w0 = "(detach_held w)\<lparr>impl := (impl (detach_held w))\<lparr>impl_video := v\<rparr>\<rparr>"
    let ?w1 = "?w0\<lparr>deferreds := (deferreds ?w0)[d := Deferred f v (Some (Inr u))]\<rparr>"
    from Some Inr assms have g: "deferred_get d w = Some (Inr u, ?w1)"
      by (simp add: deferred_get_def then_lambda_def Let_def)
    have dw: "deferreds ?w0 = deferreds w"
      by (simp add: detach_held_def split: option.splits)
    with assms(1) have "d < length (deferreds ?w1)"
        and "deferreds ?w1 ! d = Deferred f v (Some (Inr u))"
      by simp_all
    then have later: "deferred_get d (acts bs ?w1) = Some (Inr u, acts bs ?w1)" for bs
      by (rule later_gets)
    have "impl_video (impl ?w1) = v"
        and "detached ?w1 =
          detached w @ (case impl_video (impl w) of None \<Rightarrow> [] | Some x \<Rightarrow> [x])"
        and "impl_filters (impl ?w1) = impl_filters (impl w)"
        and "impl_object (impl ?w1) = impl_object (impl w)"
      by (simp_all add: detach_held_def split: option.splits)
    with g later Some Inr show ?thesis
      by simp
  qed
qed

text \<open>
  Claim C1. \<^verbatim>\<open>Attach(player)\<close> creates a new element and issues the remote call
  \<^verbatim>\<open>attach\<close> with it, \<^verbatim>\<open>Detach()\<close> issues the remote call \<^verbatim>\<open>detach\<close>; either call is
  pending at first. Let anything happen afterwards except a get on the returned future,
  and then let that future be got for the first time. While the remote call is still
  pending the get blocks and nothing changes. If the remote call has resolved with an
  Error, the get yields that Error and leaves every member and the record of detached
  elements as they were: the held sink is untouched. If it has resolved without Error, the
  get yields the result, \<^verbatim>\<open>Detach()\<close> has been called on the sink held until then (if
  there was one) and on nothing else, and the held sink is the new element for \<^verbatim>\<open>Attach\<close>
  and none for \<^verbatim>\<open>Detach\<close>. Every later get, whatever happens in between, yields the same
  result and changes nothing.
\<close>

theorem sink_replaced_only_on_success:
  assumes "Gets (length (deferreds w)) \<notin> set as"
  shows "js_calls (snd (Attach player w)) =
           js_calls w @ [JsCallMethod ''attach'' [JsObject (length (elements w))]] \<and>
         elements (snd (Attach player w)) = elements w @ [player] \<and>
         future_get (length (js_futures w)) (snd (Attach player w)) = None \<and>
         js_calls (snd (Detach w)) = js_calls w @ [JsCallMethod ''detach'' []] \<and>
         elements (snd (Detach w)) = elements w \<and>
         future_get (length (js_futures w)) (snd (Detach w)) = None \<and>
         (\<forall>call video. (call, video) \<in> {(Attach player w, Some (length (elements w))),
                                      (Detach w, None)} \<longrightarrow>
            (future_get (length (js_futures w)) (acts as (snd call)) = None \<longrightarrow>
               deferred_get (fst call) (acts as (snd call)) = None) \<and>
            (\<forall>e. future_get (length (js_futures w)) (acts as (snd call)) = Some (Inl e) \<longrightarrow>
               (\<exists>w1. deferred_get (fst call) (acts as (snd call)) = Some (Inl e, w1) \<and>
                  impl w1 = impl (acts as (snd call)) \<and>
                  detached w1 = detached (acts as (snd call)) \<and>
                  (\<forall>bs. deferred_get (fst call) (acts bs w1) = Some (Inl e, acts bs w1)))) \<and>
            (\<forall>u. future_get (length (js_futures w)) (acts as (snd call)) = Some (Inr u) \<longrightarrow>
               (\<exists>w1. deferred_get (fst call) (acts as (snd call)) = Some (Inr u, w1) \<and>
                  impl_video (impl w1) = video \<and>
                  detached w1 =
                    detached (acts as (snd call)) @
                      (case impl_video (impl (acts as (snd call))) of
                         None \<Rightarrow> [] | Some x \<Rightarrow> [x]) \<and>
                  impl_filters (impl w1) = impl_filters (impl (acts as (snd call))) \<and>
                  impl_object (impl w1) = impl_object (impl (acts as (snd call))) \<and>
                  (\<forall>bs. deferred_get (fst call) (acts bs w1) = Some (Inr u, acts bs w1)))))"
proof -
  let ?d = "length (deferreds w)"
  let ?f = "length (js_futures w)"
  have issued: "js_calls (snd (Attach player w)) =
           js_calls w @ [JsCallMethod ''attach'' [JsObject (length (elements w))]] \<and>
         elements (snd (Attach player w)) = elements w @ [player] \<and>
         future_get ?f (snd (Attach player w)) = None \<and>
         js_calls (snd (Detach w)) = js_calls w @ [JsCallMethod ''detach'' []] \<and>
         elements (snd (Detach w)) = elements w \<and>
         future_get ?f (snd (Detach w)) = None"
    by (simp add: Attach_eq Detach_eq future_get_def)
  have made: "fst call = ?d \<and> ?d < length (deferreds (snd call)) \<and>
      deferreds (snd call) ! ?d = Deferred ?f video None"
    if "(call, video) \<in> {(Attach player w, Some (length (elements w))), (Detach w, None)}"
    for call video
    using that by (auto simp: Attach_eq Detach_eq)
  have got: "(future_get ?f (acts as (snd call)) = None \<longrightarrow>
               deferred_get (fst call) (acts as (snd call)) = None) \<and>
            (\<forall>e. future_get ?f (acts as (snd call)) = Some (Inl e) \<longrightarrow>
               (\<exists>w1. deferred_get (fst call) (acts as (snd call)) = Some (Inl e, w1) \<and>
                  impl w1 = impl (acts as (snd call)) \<and>
                  detached w1 = detached (acts as (snd call)) \<and>
                  (\<forall>bs. deferred_get (fst call) (acts bs w1) = Some (Inl e, acts bs w1)))) \<and>
            (\<forall>u. future_get ?f (acts as (snd call)) = Some (Inr u) \<longrightarrow>
               (\<exists>w1. deferred_get (fst call) (acts as (snd call)) = Some (Inr u, w1) \<and>
                  impl_video (impl w1) = video \<and>
                  detached w1 =
                    detached (acts as (snd call)) @
                      (case impl_video (impl (acts as (snd call))) of
                         None \<Rightarrow> [] | Some x \<Rightarrow> [x]) \<and>
                  impl_filters (impl w1) = impl_filters (impl (acts as (snd call))) \<and>
                  impl_object (impl w1) = impl_object (impl (acts as (snd call))) \<and>
                  (\<forall>bs. deferred_get (fst call) (acts bs w1) = Some (Inr u, acts bs w1))))"
    if "(call, video) \<in> {(Attach player w, Some (length (elements w))), (Detach w, None)}"
    for call video
  proof -
    note m = made [OF that]
    from m assms have kept: "?d < length (deferreds (acts as (snd call)))"
        "deferreds (acts as (snd call)) ! ?d = Deferred ?f video None"
      using acts_keep_entry [of ?d "snd call" as] by simp_all
    from first_get [OF kept] m show ?thesis
      by simp
  qed
  from issued got show ?thesis
    by blast
qed

theorem sink_replaced_only_on_success_witness:
  "Gets (length (deferreds \<lparr>impl = \<lparr>impl_object = Some 0, impl_video = Some 0, impl_filters = []\<rparr>,
      elements = [Some 5], js_calls = [], js_futures = [], detached = [],
      deferreds = []\<rparr>)) \<notin> set [Calls ''unload'' [], Resolves 0 (Inr ())] \<and>
   future_get (length (js_futures \<lparr>impl = \<lparr>impl_object = Some 0, impl_video = Some 0, impl_filters = []\<rparr>,
      elements = [Some 5], js_calls = [], js_futures = [], detached = [],
      deferreds = []\<rparr>))
     (acts [Calls ''unload'' [], Resolves 0 (Inr ())] (snd (Attach (Some 6) \<lparr>impl = \<lparr>impl_object = Some 0, impl_video = Some 0, impl_filters = []\<rparr>,
      elements = [Some 5], js_calls = [], js_futures = [], detached = [],
      deferreds = []\<rparr>))) =
     Some (Inr ()) \<and>
   map_option (\<lambda>r. (fst r, impl_video (impl (snd r)), detached (snd r)))
     (deferred_get (fst (Attach (Some 6) \<lparr>impl = \<lparr>impl_object = Some 0, impl_video = Some 0, impl_filters = []\<rparr>,
      elements = [Some 5], js_calls = [], js_futures = [], detached = [],
      deferreds = []\<rparr>))
        (acts [Calls ''unload'' [], Resolves 0 (Inr ())] (snd (Attach (Some 6) \<lparr>impl = \<lparr>impl_object = Some 0, impl_video = Some 0, impl_filters = []\<rparr>,
      elements = [Some 5], js_calls = [], js_futures = [], detached = [],
      deferreds = []\<rparr>)))) =
     Some (Inr (), Some 1, [0]) \<and>
   detached (acts [Resolves 0 (Inr ()), Gets 0, Gets 0] (snd (Attach (Some 6) \<lparr>impl = \<lparr>impl_object = Some 0, impl_video = Some 0, impl_filters = []\<rparr>,
      elements = [Some 5], js_calls = [], js_futures = [], detached = [],
      deferreds = []\<rparr>))) = [0] \<and>
   Gets (length (deferreds \<lparr>impl = \<lparr>impl_object = Some 0, impl_video = Some 0, impl_filters = []\<rparr>,
      elements = [Some 5], js_calls = [], js_futures = [], detached = [],
      deferreds = []\<rparr>)) \<notin> set [Resolves 0 (Inl (Error ''no''))] \<and>
   map_option (\<lambda>r. (fst r, impl_video (impl (snd r)), detached (snd r)))
     (deferred_get (fst (Detach \<lparr>impl = \<lparr>impl_object = Some 0, impl_video = Some 0, impl_filters = []\<rparr>,
      elements = [Some 5], js_calls = [], js_futures = [], detached = [],
      deferreds = []\<rparr>))
        (acts [Resolves 0 (Inl (Error ''no''))] (snd (Detach \<lparr>impl = \<lparr>impl_object = Some 0, impl_video = Some 0, impl_filters = []\<rparr>,
      elements = [Some 5], js_calls = [], js_futures = [], detached = [],
      deferreds = []\<rparr>)))) =
     Some (Inl (Error ''no''), Some 0, [])"
proof -
  have h1: "Gets (length (deferreds \<lparr>impl = \<lparr>impl_object = Some 0, impl_video = Some 0, impl_filters = []\<rparr>,
      elements = [Some 5], js_calls = [], js_futures = [], detached = [],
      deferreds = []\<rparr>)) \<notin> set [Calls ''unload'' [], Resolves 0 (Inr ())]"
    by simp
  have h2: "Gets (length (deferreds \<lparr>impl = \<lparr>impl_object = Some 0, impl_video = Some 0, impl_filters = []\<rparr>,
      elements = [Some 5], js_calls = [], js_futures = [], detached = [],
      deferreds = []\<rparr>)) \<notin> set [Resolves 0 (Inl (Error ''no''))]"
    by simp
  from sink_replaced_only_on_success [OF h1, of "Some 6"]
    sink_replaced_only_on_success [OF h2, of "Some 6"] h1 h2
  show ?thesis
    by (simp add: Attach_eq Detach_eq CallMethod_def resolve_def deferred_get_def
        then_lambda_def future_get_def detach_held_def)
qed

text \<open>
  Claim C9. \<^verbatim>\<open>Attach\<close> and \<^verbatim>\<open>Detach\<close> themselves leave the held sink and the record of
  detached elements as they were, and so does the resolution of the remote call. Getting
  the returned future while the call is pending blocks and changes nothing. The swap is
  made by the first get on the returned future after the call has resolved successfully.
\<close>

theorem sink_swap_deferred:
  "impl (snd (Attach player w)) = impl w \<and> detached (snd (Attach player w)) = detached w \<and>
   impl (snd (Detach w)) = impl w \<and> detached (snd (Detach w)) = detached w \<and>
   impl (resolve future results w) = impl w \<and>
   detached (resolve future results w) = detached w \<and>
   deferred_get (fst (Attach player w)) (snd (Attach player w)) = None \<and>
   deferred_get (fst (Detach w)) (snd (Detach w)) = None \<and>
   impl_video (impl (resolve (length (js_futures w)) (Inr ()) (snd (Attach player w)))) =
     impl_video (impl w) \<and>
   impl_video (impl (resolve (length (js_futures w)) (Inr ()) (snd (Detach w)))) =
     impl_video (impl w) \<and>
   map_option (\<lambda>r. (fst r, impl_video (impl (snd r))))
     (deferred_get (fst (Attach player w))
        (resolve (length (js_futures w)) (Inr ()) (snd (Attach player w)))) =
     Some (Inr (), Some (length (elements w))) \<and>
   map_option (\<lambda>r. (fst r, impl_video (impl (snd r))))
     (deferred_get (fst (Detach w))
        (resolve (length (js_futures w)) (Inr ()) (snd (Detach w)))) =
     Some (Inr (), None)"
  by (simp add: Attach_eq Detach_eq resolve_def deferred_get_def then_lambda_def
      future_get_def detach_held_def Let_def nth_append split: option.splits)

subsection \<open>Initialize\<close>

lemma abort_result:
  "snd (abort_at_first_failure steps) = Inr () \<longleftrightarrow> (\<forall>st \<in> set steps. \<not> isl (snd st))"
  by (induction steps rule: abort_at_first_failure.induct) auto

lemma abort_error:
  "snd (abort_at_first_failure steps) = Inl e \<Longrightarrow>
   (\<exists>k < length steps. snd (steps ! k) = Inl e \<and> (\<forall>j < k. \<not> isl (snd (steps ! j))) \<and>
      fst (abort_at_first_failure steps) = map fst (take (Suc k) steps))"
proof (induction steps rule: abort_at_first_failure.induct)
  case 1
  then show ?case by simp
next
  case (2 c e' rest)
  then show ?case by auto
next
  case (3 c u rest)
  then obtain k where k: "k < length rest" "snd (rest ! k) = Inl e"
      "\<forall>j < k. \<not> isl (snd (rest ! j))"
      "fst (abort_at_first_failure rest) = map fst (take (Suc k) rest)"
    by auto
  have "\<forall>j < Suc k. \<not> isl (snd (((c, Inr u) # rest) ! j))"
    using k(3) by (auto simp: less_Suc_eq_0_disj)
  with k show ?case
    by (intro exI [of _ "Suc k"]) simp
qed

lemma AttachListeners_steps:
  "fst (AttachListeners js w) = snd (abort_at_first_failure (drop 2 (init_steps js player w0))) \<and>
   js_calls (snd (AttachListeners js w)) =
     js_calls w @ fst (abort_at_first_failure (drop 2 (init_steps js player w0))) \<and>
   impl (snd (AttachListeners js w)) = impl w"
  by (simp add: AttachListeners_def init_steps_def called_def Let_def split: sum.splits)

lemma Initialize_steps:
  "fst (Initialize js player w) = snd (abort_at_first_failure (init_steps js player w)) \<and>
   js_calls (snd (Initialize js player w)) =
     js_calls w @ fst (abort_at_first_failure (init_steps js player w))"
proof (cases "player_ctor_type js \<noteq> Function")
  case True
  then show ?thesis
    by (simp add: Initialize_def init_steps_def called_def Let_def)
next
  case ctor: False
  show ?thesis
  proof (cases "construct js")
    case (Inl except)
    with ctor show ?thesis
      by (simp add: Initialize_def init_steps_def called_def Let_def split: option.splits)
  next
    case (Inr obj)
    have hd2: "init_steps js player w =
        take 2 (init_steps js player w) @ drop 2 (init_steps js player w)"
      by simp
    have "abort_at_first_failure (init_steps js player w) =
       (map fst (take 2 (init_steps js player w)) @
          fst (abort_at_first_failure (drop 2 (init_steps js player w))),
        snd (abort_at_first_failure (drop 2 (init_steps js player w))))"
      using ctor Inr by (simp add: init_steps_def)
    with ctor Inr show ?thesis
      using AttachListeners_steps [of js _ player w]
      by (simp add: Initialize_def called_def Let_def init_steps_def split: option.splits prod.splits)
  qed
qed

text \<open>
  Claim C6. When the value found at \<^verbatim>\<open>shaka.Player\<close> is not a function, \<^verbatim>\<open>Initialize\<close>
  resolves with the Error "The constructor 'shaka.Player' is not found." (the spec's
  ConfigurationError), having made no request but the lookup and changed no member. In
  general \<^verbatim>\<open>Initialize\<close> resolves with success exactly when no step of the sequence fails;
  when it resolves with an Error, that Error is the one of the first failing step, and
  the requests made of the engine are those of the steps up to and including that one:
  no later step is taken. Finishing with an Error is what the wrapper has for "not Ready".
\<close>

theorem Initialize_aborts_at_first_failure:
  "(player_ctor_type js \<noteq> Function \<longrightarrow>
      fst (Initialize js player w) =
        Inl (Error ''The constructor 'shaka.Player' is not found.'') \<and>
      js_calls (snd (Initialize js player w)) =
        js_calls w @ [JsGetDescendant [''shaka'', ''Player'']] \<and>
      impl (snd (Initialize js player w)) = impl w) \<and>
   (fst (Initialize js player w) = Inr () \<longleftrightarrow>
      (\<forall>st \<in> set (init_steps js player w). \<not> isl (snd st))) \<and>
   (\<forall>e. fst (Initialize js player w) = Inl e \<longrightarrow>
      (\<exists>k < length (init_steps js player w).
         snd (init_steps js player w ! k) = Inl e \<and>
         (\<forall>j < k. \<not> isl (snd (init_steps js player w ! j))) \<and>
         js_calls (snd (Initialize js player w)) =
           js_calls w @ map fst (take (Suc k) (init_steps js player w))))"
proof -
  have first: "player_ctor_type js \<noteq> Function \<longrightarrow>
      fst (Initialize js player w) =
        Inl (Error ''The constructor 'shaka.Player' is not found.'') \<and>
      js_calls (snd (Initialize js player w)) =
        js_calls w @ [JsGetDescendant [''shaka'', ''Player'']] \<and>
      impl (snd (Initialize js player w)) = impl w"
    by (simp add: Initialize_def called_def Let_def)
  note steps = Initialize_steps [of js player w]
  have success: "fst (Initialize js player w) = Inr () \<longleftrightarrow>
      (\<forall>st \<in> set (init_steps js player w). \<not> isl (snd st))"
    using steps abort_result [of "init_steps js player w"] by simp
  have failure: "\<exists>k < length (init_steps js player w).
         snd (init_steps js player w ! k) = Inl e \<and>
         (\<forall>j < k. \<not> isl (snd (init_steps js player w ! j))) \<and>
         js_calls (snd (Initialize js player w)) =
           js_calls w @ map fst (take (Suc k) (init_steps js player w))"
    if "fst (Initialize js player w) = Inl e" for e
  proof -
    from that steps have "snd (abort_at_first_failure (init_steps js player w)) = Inl e"
      by simp
    from abort_error [OF this] steps show ?thesis
      by auto
  qed
  from first success failure show ?thesis
    by blast
qed

theorem Initialize_aborts_at_first_failure_witness:
  "player_ctor_type \<lparr>player_ctor_type = OtherValueType 0, construct = Inr 3,
      listen_error = Inr (), listen_buffering = Inr (), getNetworkingEngine = Inr 4,
      registerRequestFilter = Inr (), registerResponseFilter = Inr ()\<rparr> \<noteq> Function \<and>
   fst (Initialize \<lparr>player_ctor_type = OtherValueType 0, construct = Inr 3,
      listen_error = Inr (), listen_buffering = Inr (), getNetworkingEngine = Inr 4,
      registerRequestFilter = Inr (), registerResponseFilter = Inr ()\<rparr> (Some 6)
      \<lparr>impl = \<lparr>impl_object = Some 0, impl_video = Some 0, impl_filters = []\<rparr>,
      elements = [Some 5], js_calls = [], js_futures = [],
      detached = [], deferreds = []\<rparr>) =
     Inl (Error ''The constructor 'shaka.Player' is not found.'') \<and>
   js_calls (snd (Initialize \<lparr>player_ctor_type = OtherValueType 0, construct = Inr 3,
      listen_error = Inr (), listen_buffering = Inr (), getNetworkingEngine = Inr 4,
      registerRequestFilter = Inr (), registerResponseFilter = Inr ()\<rparr> (Some 6)
      \<lparr>impl = \<lparr>impl_object = Some 0, impl_video = Some 0, impl_filters = []\<rparr>,
      elements = [Some 5], js_calls = [], js_futures = [],
      detached = [], deferreds = []\<rparr>)) =
     [JsGetDescendant [''shaka'', ''Player'']] \<and>
   fst (Initialize \<lparr>player_ctor_type = Function, construct = Inr 3,
      listen_error = Inr (), listen_buffering = Inl (Error ''no''),
      getNetworkingEngine = Inr 4, registerRequestFilter = Inr (),
      registerResponseFilter = Inr ()\<rparr> None
      \<lparr>impl = \<lparr>impl_object = Some 0, impl_video = Some 0, impl_filters = []\<rparr>,
      elements = [Some 5], js_calls = [], js_futures = [],
      detached = [], deferreds = []\<rparr>) =
     Inl (Error ''no'') \<and>
   js_calls (snd (Initialize \<lparr>player_ctor_type = Function, construct = Inr 3,
      listen_error = Inr (), listen_buffering = Inl (Error ''no''),
      getNetworkingEngine = Inr 4, registerRequestFilter = Inr (),
      registerResponseFilter = Inr ()\<rparr> None
      \<lparr>impl = \<lparr>impl_object = Some 0, impl_video = Some 0, impl_filters = []\<rparr>,
      elements = [Some 5], js_calls = [], js_futures = [],
      detached = [], deferreds = []\<rparr>)) =
     [JsGetDescendant [''shaka'', ''Player''], JsInvokeConstructor [],
      JsAttachEventListener ''error'', JsAttachEventListener ''buffering'']"
  using Initialize_aborts_at_first_failure [of "\<lparr>player_ctor_type = OtherValueType 0,
      construct = Inr 3, listen_error = Inr (), listen_buffering = Inr (),
      getNetworkingEngine = Inr 4, registerRequestFilter = Inr (),
      registerResponseFilter = Inr ()\<rparr>" "Some 6"
      "\<lparr>impl = \<lparr>impl_object = Some 0, impl_video = Some 0, impl_filters = []\<rparr>,
      elements = [Some 5], js_calls = [], js_futures = [],
      detached = [], deferreds = []\<rparr>"]
    Initialize_aborts_at_first_failure [of "\<lparr>player_ctor_type = Function, construct = Inr 3,
      listen_error = Inr (), listen_buffering = Inl (Error ''no''),
      getNetworkingEngine = Inr 4, registerRequestFilter = Inr (),
      registerResponseFilter = Inr ()\<rparr>" None
      "\<lparr>impl = \<lparr>impl_object = Some 0, impl_video = Some 0, impl_filters = []\<rparr>,
      elements = [Some 5], js_calls = [], js_futures = [],
      detached = [], deferreds = []\<rparr>"]
  by (simp add: Initialize_def AttachListeners_def called_def Let_def)

end
